theory Spec2Isabelle
  imports Main "HOL-Library.AList" "HOL-Library.Log_Nat" "HOL-Library.Multiset"
begin

section \<open>Text and cells\<close>

text \<open>
  The survey pipeline of \<^verbatim>\<open>src/analyze.py\<close> works on Python \<^verbatim>\<open>str\<close> values. A
  \<^typ>\<open>string\<close> stands for such a text, one \<^typ>\<open>char\<close> per code point, which covers
  the code points below 256. \<^verbatim>\<open>str.isspace\<close> holds below 256 exactly for the code
  points 9 to 13, 28 to 32, 133 and 160; \<^verbatim>\<open>str.lower\<close> moves \<^verbatim>\<open>A-Z\<close> and the
  Latin-1 capitals 192 to 222 (215, the multiplication sign, apart) up by 32.
\<close>

definition isspace :: "char \<Rightarrow> bool" where
  "isspace c =
     (let n = (of_char c :: nat)
      in (9 \<le> n \<and> n \<le> 13) \<or> (28 \<le> n \<and> n \<le> 32) \<or> n = 133 \<or> n = 160)"

definition lower_char :: "char \<Rightarrow> char" where
  "lower_char c =
     (let n = (of_char c :: nat)
      in if (65 \<le> n \<and> n \<le> 90) \<or> (192 \<le> n \<and> n \<le> 222 \<and> n \<noteq> 215)
         then char_of (n + 32) else c)"

text \<open>\<^verbatim>\<open>s.strip()\<close>: the text without its leading and trailing whitespace.\<close>

definition strip :: "string \<Rightarrow> string" where
  "strip s = rev (dropWhile isspace (rev (dropWhile isspace s)))"

text \<open>\<^verbatim>\<open>s.lower()\<close>.\<close>

definition lower :: "string \<Rightarrow> string" where
  "lower s = map lower_char s"

text \<open>
  \<^verbatim>\<open>s.split(d)\<close> for a one-character separator: every occurrence of the separator
  ends a piece, so there is always at least one piece and pieces may be empty.
\<close>

fun split :: "char \<Rightarrow> string \<Rightarrow> string list" where
  "split d [] = [[]]"
| "split d (c # cs) =
     (if c = d then [] # split d cs
      else (case split d cs of
              [] \<Rightarrow> [[c]]
            | p # ps \<Rightarrow> (c # p) # ps))"

text \<open>\<^verbatim>\<open>d.join(ps)\<close>, the inverse of splitting.\<close>

fun join :: "char \<Rightarrow> string list \<Rightarrow> string" where
  "join d [] = []"
| "join d [p] = p"
| "join d (p # q # ps) = p @ d # join d (q # ps)"

text \<open>\<^verbatim>\<open>p in s\<close> on two texts: \<open>p\<close> occurs in \<open>s\<close> as a contiguous run.\<close>

fun starts_with :: "string \<Rightarrow> string \<Rightarrow> bool" where
  "starts_with [] s = True"
| "starts_with (a # p) [] = False"
| "starts_with (a # p) (c # s) = (a = c \<and> starts_with p s)"

fun contains :: "string \<Rightarrow> string \<Rightarrow> bool" where
  "contains p [] = (p = [])"
| "contains p (c # s) = (starts_with p (c # s) \<or> contains p s)"

text \<open>
  A cell of the data frame: missing (\<^verbatim>\<open>pd.isna\<close> holds: the NaN that
  \<^verbatim>\<open>read_excel\<close> gives an empty cell), or a value, carried as the text that
  \<^verbatim>\<open>str(value)\<close> gives.
\<close>

datatype cell = NA | Val string

text \<open>\<^verbatim>\<open>series.astype(str)\<close> on one cell: a missing cell becomes the text \<^verbatim>\<open>nan\<close>.\<close>

fun astype_str :: "cell \<Rightarrow> string" where
  "astype_str NA = ''nan''"
| "astype_str (Val s) = s"

text \<open>
  A data frame: its column labels and its rows in order; a row gives a cell for every
  label (what it gives for a text that is no label of the frame is never read).
\<close>

type_synonym row = "string \<Rightarrow> cell"

record frame =
  columns :: "string list"
  rows :: "row list"

section \<open>The helpers of the pipeline\<close>

definition truthy :: "string list" where
  "truthy = [''true'', ''1'', ''yes'', ''y'', ''t'']"

text \<open>\<^verbatim>\<open>normalize_finished\<close>: the boolean mask of a column.\<close>

definition normalize_finished :: "cell list \<Rightarrow> bool list" where
  "normalize_finished series = map (\<lambda>c. lower (strip (astype_str c)) \<in> set truthy) series"

text \<open>\<^verbatim>\<open>df[mask]\<close>: the rows whose mask entry is true, in order.\<close>

definition select_mask :: "'a list \<Rightarrow> bool list \<Rightarrow> 'a list" where
  "select_mask xs keep = map fst (filter snd (zip xs keep))"

text \<open>The first step of \<^verbatim>\<open>main\<close> after loading (lines 42 to 45).\<close>

definition filter_finished :: "frame \<Rightarrow> frame" where
  "filter_finished df =
     (if ''Finished'' \<in> set (columns df)
      then df\<lparr>rows := select_mask (rows df) (normalize_finished (map (\<lambda>r. r ''Finished'') (rows df)))\<rparr>
      else df)"

text \<open>
  The exceptions of the pipeline. The source raises \<^verbatim>\<open>FileNotFoundError\<close> and three
  \<^verbatim>\<open>ValueError\<close>s that differ in their message; each is a constructor here, named as
  the specification names it, and the one of \<^verbatim>\<open>find_group_column\<close> carries what its
  message reports: the keyword and the list of matches. \<^verbatim>\<open>ZeroDivisionError\<close> and
  \<^verbatim>\<open>OverflowError\<close> are what the division of the score can raise.
\<close>

datatype error =
    DatasetNotFound
  | EmptyDataset
  | AmbiguousColumn string "string list"
  | NoCoursesFound
  | ZeroDivisionError
  | OverflowError

definition find_group_column :: "string list \<Rightarrow> string \<Rightarrow> error + string" where
  "find_group_column cols keyword =
     (let matches = filter (\<lambda>c. contains ''Groups'' c \<and> contains keyword c) cols
      in if length matches \<noteq> 1 then Inl (AmbiguousColumn keyword matches)
         else Inr (matches ! 0))"

definition split_courses :: "cell \<Rightarrow> string list" where
  "split_courses v =
     (case v of
        NA \<Rightarrow> []
      | Val s \<Rightarrow>
          (let parts = map strip (split CHR '','' s)
           in filter (\<lambda>p. p \<noteq> []) parts))"

section \<open>Tallying\<close>

text \<open>
  \<^verbatim>\<open>course_stats\<close> is a dictionary from course names to the three counters. A Python
  dictionary keeps its keys in the order of their first insertion and \<^verbatim>\<open>items()\<close>
  walks them in that order, so the model is an association list:
  \<^term>\<open>map_of\<close> reads a key, \<^term>\<open>AList.update\<close> overwrites a key in place and
  appends a new one.
\<close>

record counts =
  most :: nat
  neutral :: nat
  least :: nat

datatype bucket = Most | Neutral | Least

type_synonym stats = "(string \<times> counts) list"

definition incr :: "bucket \<Rightarrow> counts \<Rightarrow> counts" where
  "incr b k =
     (case b of
        Most \<Rightarrow> k\<lparr>most := most k + 1\<rparr>
      | Neutral \<Rightarrow> k\<lparr>neutral := neutral k + 1\<rparr>
      | Least \<Rightarrow> k\<lparr>least := least k + 1\<rparr>)"

text \<open>Lines 66 to 68: the body of the innermost loop.\<close>

definition count_course :: "bucket \<Rightarrow> stats \<Rightarrow> string \<Rightarrow> stats" where
  "count_course b st c =
     (let st1 = (if map_of st c = None
                 then AList.update c \<lparr>most = 0, neutral = 0, least = 0\<rparr> st
                 else st)
      in case map_of st1 c of
           None \<Rightarrow> st1
         | Some k \<Rightarrow> AList.update c (incr b k) st1)"

text \<open>
  Lines 58 to 68: one row. The dictionary \<^verbatim>\<open>buckets\<close> is walked in the order its
  keys are written: most, neutral, least.
\<close>

definition tally_row :: "string \<Rightarrow> string \<Rightarrow> string \<Rightarrow> stats \<Rightarrow> row \<Rightarrow> stats" where
  "tally_row most_col neutral_col least_col st r =
     (let buckets = [(Most, split_courses (r most_col)),
                     (Neutral, split_courses (r neutral_col)),
                     (Least, split_courses (r least_col))]
      in foldl (\<lambda>st (b, courses). foldl (count_course b) st courses) st buckets)"

text \<open>Lines 55 to 68: the loop over the rows, from the empty dictionary.\<close>

definition tally_rows :: "string \<Rightarrow> string \<Rightarrow> string \<Rightarrow> row list \<Rightarrow> stats" where
  "tally_rows most_col neutral_col least_col rs = foldl (tally_row most_col neutral_col least_col) [] rs"

text \<open>
  Reading the dictionary the way the specification writes \<open>tally[c]\<close>: the counters
  of a course, all zero for a course with no entry.
\<close>

definition tally_of :: "stats \<Rightarrow> string \<Rightarrow> counts" where
  "tally_of st c =
     (case map_of st c of
        None \<Rightarrow> \<lparr>most = 0, neutral = 0, least = 0\<rparr>
      | Some k \<Rightarrow> k)"

section \<open>Scoring\<close>

text \<open>
  The score is computed with Python's \<^verbatim>\<open>/\<close> on two integers, which gives a float:
  the IEEE 754 double nearest to the quotient, ties to the even significand
  (CPython rounds \<^verbatim>\<open>int / int\<close> correctly), \<^verbatim>\<open>ZeroDivisionError\<close> for a zero
  divisor and \<^verbatim>\<open>OverflowError\<close> when the result is too large for a double. A double
  is a rational number, and the model computes it as one. Both operands are
  natural numbers here.
\<close>

definition pow2 :: "int \<Rightarrow> rat" where
  "pow2 e = (if 0 \<le> e then 2 ^ nat e else 1 / 2 ^ nat (- e))"

text \<open>The integer nearest to \<open>a / b\<close>, a tie going to the even one.\<close>

definition round_half_even :: "nat \<Rightarrow> nat \<Rightarrow> nat" where
  "round_half_even a b =
     (let m = a div b; r = a mod b
      in if 2 * r < b then m
         else if b < 2 * r then m + 1
         else if even m then m else m + 1)"

text \<open>
  The binary exponent of \<open>a / b\<close> for positive \<open>a\<close> and \<open>b\<close>: the \<open>e\<close> with
  \<open>2 ^ e \<le> a / b < 2 ^ (e + 1)\<close>, from the bit lengths of the operands.
\<close>

definition floor_log2 :: "nat \<Rightarrow> nat \<Rightarrow> int" where
  "floor_log2 a b =
     (let d = int (floorlog 2 a) - int (floorlog 2 b)
      in if of_nat b * pow2 d \<le> (of_nat a :: rat) then d else d - 1)"

text \<open>
  \<^verbatim>\<open>a / b\<close>: the quotient is rounded to 53 significant bits, or to a multiple of
  \<open>2 ^ -1074\<close> below the normal range.
\<close>

definition truediv :: "nat \<Rightarrow> nat \<Rightarrow> error + rat" where
  "truediv a b =
     (if b = 0 then Inl ZeroDivisionError
      else if a = 0 then Inr 0
      else
        (let e = max (floor_log2 a b) (- 1022);
             m = (if 52 \<le> e then round_half_even a (b * 2 ^ nat (e - 52))
                  else round_half_even (a * 2 ^ nat (52 - e)) b);
             y = of_nat m * pow2 (e - 52)
         in if pow2 1024 \<le> y then Inl OverflowError else Inr y))"

text \<open>A row of the ranking: the dictionary appended at lines 76 to 85.\<close>

record entry = counts +
  course :: string
  score :: rat
  N :: nat

text \<open>Lines 73 to 85: one ranking row per course, in the order of the dictionary.\<close>

fun ranking_rows :: "stats \<Rightarrow> nat \<Rightarrow> error + entry list" where
  "ranking_rows [] n_responses = Inr []"
| "ranking_rows ((c, k) # st) n_responses =
     (case truediv (2 * most k + 1 * neutral k + 0 * least k) n_responses of
        Inl err \<Rightarrow> Inl err
      | Inr s \<Rightarrow>
          (case ranking_rows st n_responses of
             Inl err \<Rightarrow> Inl err
           | Inr es \<Rightarrow>
               Inr (\<lparr>most = most k, neutral = neutral k, least = least k,
                     course = c, score = s, N = n_responses\<rparr> # es)))"

section \<open>Ranking\<close>

text \<open>
  The order of two texts in Python: the first code point that differs decides, and a
  proper prefix comes first.
\<close>

fun str_lt :: "string \<Rightarrow> string \<Rightarrow> bool" where
  "str_lt [] [] = False"
| "str_lt [] (y # ys) = True"
| "str_lt (x # xs) [] = False"
| "str_lt (x # xs) (y # ys) = ((of_char x :: nat) < of_char y \<or> (x = y \<and> str_lt xs ys))"

text \<open>
  \<^verbatim>\<open>sort_values(by=["score", "most", "neutral", "course"], ascending=[False, False,
  False, True])\<close>: \<open>a\<close> sorts strictly before \<open>b\<close> when the first key on which they
  differ says so.
\<close>

definition before :: "entry \<Rightarrow> entry \<Rightarrow> bool" where
  "before a b =
     (score b < score a \<or> (score a = score b \<and>
       (most b < most a \<or> (most a = most b \<and>
         (neutral b < neutral a \<or> (neutral a = neutral b \<and>
           str_lt (course a) (course b)))))))"

text \<open>
  \<^verbatim>\<open>sort_values\<close> sorts stably: rows that agree on every key keep their order. A
  stable sort has one result, so the model is the insertion sort: a row goes in
  front of the first row that does not sort strictly before it.
\<close>

fun insert_row :: "entry \<Rightarrow> entry list \<Rightarrow> entry list" where
  "insert_row x [] = [x]"
| "insert_row x (y # ys) = (if before y x then y # insert_row x ys else x # y # ys)"

definition sort_values :: "entry list \<Rightarrow> entry list" where
  "sort_values es = foldr insert_row es []"

record ranked = entry +
  rank :: nat

text \<open>
  Lines 92 and 93: the index is renumbered from 0 and the rank is the index plus 1.
\<close>

fun insert_rank :: "nat \<Rightarrow> entry list \<Rightarrow> ranked list" where
  "insert_rank i [] = []"
| "insert_rank i (e # es) =
     \<lparr>most = most e, neutral = neutral e, least = least e,
      course = course e, score = score e, N = N e, rank = i + 1\<rparr> # insert_rank (i + 1) es"

section \<open>The pipeline\<close>

text \<open>
  Lines 42 to 93 of \<^verbatim>\<open>main\<close>, from the loaded frame to the ranked table: the part
  that reads and writes no file. It gives \<^verbatim>\<open>n_responses\<close> and \<^verbatim>\<open>ranking_df\<close>.
\<close>

definition ranking_of :: "frame \<Rightarrow> error + (nat \<times> ranked list)" where
  "ranking_of df0 =
     (let df = filter_finished df0;
          n_responses = length (rows df)
      in if n_responses = 0 then Inl EmptyDataset
         else
           (case find_group_column (columns df) ''Most Beneficial'' of
              Inl err \<Rightarrow> Inl err
            | Inr most_col \<Rightarrow>
           (case find_group_column (columns df) ''Neutral'' of
              Inl err \<Rightarrow> Inl err
            | Inr neutral_col \<Rightarrow>
           (case find_group_column (columns df) ''Least Beneficial'' of
              Inl err \<Rightarrow> Inl err
            | Inr least_col \<Rightarrow>
           (let course_stats = tally_rows most_col neutral_col least_col (rows df)
            in if course_stats = [] then Inl NoCoursesFound
               else
                 (case ranking_rows course_stats n_responses of
                    Inl err \<Rightarrow> Inl err
                  | Inr es \<Rightarrow> Inr (n_responses, insert_rank 0 (sort_values es))))))))"

text \<open>
  What \<^verbatim>\<open>main\<close> reads and writes: the workbook at \<^verbatim>\<open>DATA_PATH\<close> (\<open>None\<close> when
  the path does not exist), the directory \<^verbatim>\<open>outputs\<close>, the two files in it
  (\<open>None\<close> when absent; the table as its rows, the chart as the rows of its bars
  from the top) and what was printed.
\<close>

datatype printed = Included nat | Top "ranked list"

record world =
  dataset :: "frame option"
  output_dir :: bool
  output_csv :: "ranked list option"
  output_png :: "ranked list option"
  console :: "printed list"

text \<open>
  \<^verbatim>\<open>main\<close>. An exception ends the run where it is raised, in the world as it is
  then. Writing the files is taken to succeed.
\<close>

definition main :: "world \<Rightarrow> (error + unit) \<times> world" where
  "main w =
     (case dataset w of
        None \<Rightarrow> (Inl DatasetNotFound, w)
      | Some df0 \<Rightarrow>
          (case ranking_of df0 of
             Inl err \<Rightarrow> (Inl err, w)
           | Inr (n_responses, ranking_df) \<Rightarrow>
               (let w1 = w\<lparr>output_dir := True\<rparr>;
                    w2 = w1\<lparr>output_csv := Some ranking_df\<rparr>;
                    top_15 = take 15 ranking_df;
                    w3 = w2\<lparr>output_png := Some top_15\<rparr>;
                    w4 = w3\<lparr>console := console w3 @ [Included n_responses, Top (take 10 ranking_df)]\<rparr>
                in (Inr (), w4))))"

section \<open>Facts about the text operations\<close>

lemma split_not_Nil: "split d s \<noteq> []"
  by (induction s) (auto split: list.splits)

lemma join_Cons: "ps \<noteq> [] \<Longrightarrow> join d (p # ps) = p @ d # join d ps"
  by (cases ps) auto

lemma join_split: "join d (split d s) = s"
proof (induction s)
  case Nil
  show ?case by simp
next
  case (Cons c cs)
  show ?case
  proof (cases "c = d")
    case True
    with Cons show ?thesis by (simp add: join_Cons split_not_Nil)
  next
    case False
    obtain p ps where sp: "split d cs = p # ps"
      using split_not_Nil [of d cs] by (cases "split d cs") auto
    have "join d ((c # p) # ps) = c # join d (p # ps)"
      by (cases ps) auto
    with Cons False sp show ?thesis by simp
  qed
qed

lemma split_no_separator: "p \<in> set (split d s) \<Longrightarrow> d \<notin> set p"
proof (induction s arbitrary: p)
  case Nil
  then show ?case by simp
next
  case (Cons c cs)
  show ?case
  proof (cases "c = d")
    case True
    with Cons show ?thesis by auto
  next
    case False
    obtain q qs where sp: "split d cs = q # qs"
      using split_not_Nil [of d cs] by (cases "split d cs") auto
    from Cons.prems False sp have "p = c # q \<or> p \<in> set qs" by simp
    then show ?thesis
    proof
      assume "p = c # q"
      moreover have "d \<notin> set q" using Cons.IH [of q] sp by simp
      ultimately show ?thesis using False by auto
    next
      assume "p \<in> set qs"
      then show ?thesis using Cons.IH [of p] sp by simp
    qed
  qed
qed

lemma strip_decompose:
  "\<exists>a b. s = a @ strip s @ b \<and> list_all isspace a \<and> list_all isspace b"
proof -
  let ?t = "dropWhile isspace s"
  have 1: "s = takeWhile isspace s @ ?t" by simp
  have 2: "rev ?t = takeWhile isspace (rev ?t) @ dropWhile isspace (rev ?t)" by simp
  have "?t = rev (dropWhile isspace (rev ?t)) @ rev (takeWhile isspace (rev ?t))"
    by (metis rev_append rev_rev_ident takeWhile_dropWhile_id)
  then have 3: "?t = strip s @ rev (takeWhile isspace (rev ?t))"
    by (simp add: strip_def)
  have a: "list_all isspace (takeWhile isspace s)"
    by (simp add: list_all_iff) (meson set_takeWhileD)
  have b: "list_all isspace (rev (takeWhile isspace (rev ?t)))"
    by (simp add: list_all_iff) (meson set_takeWhileD)
  have "s = takeWhile isspace s @ strip s @ rev (takeWhile isspace (rev ?t))"
    using 1 3 by metis
  with a b show ?thesis by blast
qed

lemma strip_hd: "strip s \<noteq> [] \<Longrightarrow> \<not> isspace (hd (strip s))"
proof -
  assume ne: "strip s \<noteq> []"
  let ?t = "dropWhile isspace s"
  let ?u = "dropWhile isspace (rev ?t)"
  from ne have une: "?u \<noteq> []" by (simp add: strip_def)
  have tne: "?t \<noteq> []"
  proof
    assume e: "?t = []"
    have "?u = []" unfolding e by simp
    with une show False by simp
  qed
  have "\<not> isspace (hd ?t)" using tne hd_dropWhile by blast
  moreover have "hd (strip s) = hd ?t"
  proof -
    have "?t = rev ?u @ rev (takeWhile isspace (rev ?t))"
      by (metis rev_append rev_rev_ident takeWhile_dropWhile_id)
    then have "hd ?t = hd (rev ?u)" using une by (metis hd_append2 rev_is_Nil_conv)
    then show ?thesis by (simp add: strip_def)
  qed
  ultimately show ?thesis by simp
qed

lemma strip_last: "strip s \<noteq> [] \<Longrightarrow> \<not> isspace (last (strip s))"
proof -
  assume ne: "strip s \<noteq> []"
  let ?u = "dropWhile isspace (rev (dropWhile isspace s))"
  from ne have une: "?u \<noteq> []" by (simp add: strip_def)
  have "\<not> isspace (hd ?u)" using une hd_dropWhile by blast
  moreover have "last (strip s) = hd ?u" using une by (simp add: strip_def last_rev)
  ultimately show ?thesis by simp
qed

lemma starts_with_iff: "starts_with p s \<longleftrightarrow> (\<exists>b. s = p @ b)"
  by (induction p s rule: starts_with.induct) auto

lemma contains_iff: "contains p s \<longleftrightarrow> (\<exists>a b. s = a @ p @ b)"
proof (induction s)
  case Nil
  show ?case by auto
next
  case (Cons c s)
  show ?case
  proof
    assume "contains p (c # s)"
    then consider "starts_with p (c # s)" | "contains p s" by auto
    then show "\<exists>a b. c # s = a @ p @ b"
    proof cases
      case 1
      then obtain b where "c # s = p @ b" by (auto simp: starts_with_iff)
      then have "c # s = [] @ p @ b" by simp
      then show ?thesis by blast
    next
      case 2
      with Cons obtain a b where "s = a @ p @ b" by auto
      then have "c # s = (c # a) @ p @ b" by simp
      then show ?thesis by blast
    qed
  next
    assume "\<exists>a b. c # s = a @ p @ b"
    then obtain a b where ab: "c # s = a @ p @ b" by auto
    show "contains p (c # s)"
    proof (cases a)
      case Nil
      with ab have "starts_with p (c # s)" by (auto simp: starts_with_iff)
      then show ?thesis by simp
    next
      case (Cons x a')
      with ab have "s = a' @ p @ b" by simp
      with Cons.IH have "contains p s" by blast
      then show ?thesis by simp
    qed
  qed
qed

section \<open>The extractor and the completion filter\<close>

lemma select_mask_map: "select_mask xs (map f xs) = filter f xs"
  by (induction xs) (auto simp: select_mask_def)

lemma normalize_examples:
  "normalize_finished [Val '' True '', Val ''YES'', Val ''0'', Val '''', Val ''maybe'', NA] =
     [True, True, False, False, False, False]"
  by code_simp

text \<open>
  C6. The course extractor gives nothing for a missing cell. For a value with text
  \<open>s\<close> it gives the pieces of \<open>s\<close> between the commas, each stripped, without the
  ones that are empty after stripping, in their order and with their duplicates.
  The pieces are what splitting means: joined with commas they give \<open>s\<close> back and
  none holds a comma. Stripping is what trimming means: it removes a prefix and a
  suffix of whitespace only, and what is left neither starts nor ends with
  whitespace.
\<close>

theorem split_courses_contract:
  "split_courses NA = [] \<and>
   split_courses (Val s) = filter (\<lambda>p. p \<noteq> []) (map strip (split CHR '','' s)) \<and>
   join CHR '','' (split CHR '','' s) = s \<and>
   list_all (\<lambda>p. CHR '','' \<notin> set p) (split CHR '','' s) \<and>
   (\<exists>a b. t = a @ strip t @ b \<and> list_all isspace a \<and> list_all isspace b) \<and>
   (strip t = [] \<or> (\<not> isspace (hd (strip t)) \<and> \<not> isspace (last (strip t))))"
proof -
  have "list_all (\<lambda>p. CHR '','' \<notin> set p) (split CHR '','' s)"
    using split_no_separator [of _ "CHR '',''" s] by (auto simp: list_all_iff)
  then show ?thesis
    using strip_decompose [of t] strip_hd [of t] strip_last [of t]
    by (auto simp: split_courses_def join_split)
qed

theorem split_courses_contract_witness:
  "split_courses NA = [] \<and>
   split_courses (Val '' A, B ,,C , A'') = [''A'', ''B'', ''C'', ''A''] \<and>
   strip ''  A B '' = ''A B''"
proof -
  have e: "filter (\<lambda>p. p \<noteq> []) (map strip (split CHR '','' '' A, B ,,C , A'')) =
      [''A'', ''B'', ''C'', ''A'']"
    by code_simp
  have s: "strip ''  A B '' = ''A B''" by code_simp
  from split_courses_contract [of "'' A, B ,,C , A''" "''  A B ''"]
  have "split_courses NA = []"
    and "split_courses (Val '' A, B ,,C , A'') =
      filter (\<lambda>p. p \<noteq> []) (map strip (split CHR '','' '' A, B ,,C , A''))"
    by blast+
  with e s show ?thesis by simp
qed

text \<open>
  C7. With a column named \<open>Finished\<close> the completion filter keeps, in their order,
  exactly the rows whose cell in that column, converted to text, stripped and
  lowercased, is one of \<open>true\<close>, \<open>1\<close>, \<open>yes\<close>, \<open>y\<close>, \<open>t\<close>, and leaves the
  columns alone; without such a column it changes nothing. A missing cell is not
  kept. The cells \<open>" True "\<close>, \<open>"YES"\<close>, \<open>"0"\<close>, \<open>""\<close>, \<open>"maybe"\<close> normalise to
  true, true, false, false, false.
\<close>

theorem filter_finished_contract:
  "(''Finished'' \<in> set (columns df) \<longrightarrow>
      rows (filter_finished df) =
        filter (\<lambda>r. lower (strip (astype_str (r ''Finished''))) \<in>
                      {''true'', ''1'', ''yes'', ''y'', ''t''}) (rows df) \<and>
      columns (filter_finished df) = columns df) \<and>
   (''Finished'' \<notin> set (columns df) \<longrightarrow> filter_finished df = df) \<and>
   normalize_finished [NA] = [False] \<and>
   normalize_finished [Val '' True '', Val ''YES'', Val ''0'', Val '''', Val ''maybe''] =
     [True, True, False, False, False]"
proof -
  have m: "normalize_finished (map (\<lambda>r. r ''Finished'') rs) =
      map (\<lambda>r. lower (strip (astype_str (r ''Finished''))) \<in>
                      {''true'', ''1'', ''yes'', ''y'', ''t''}) rs" for rs :: "row list"
    by (simp add: normalize_finished_def truthy_def)
  have n: "normalize_finished [NA] = [False]" by code_simp
  have x: "normalize_finished [Val '' True '', Val ''YES'', Val ''0'', Val '''', Val ''maybe''] =
     [True, True, False, False, False]" by code_simp
  show ?thesis
    unfolding filter_finished_def
    by (simp only: m select_mask_map n x) simp
qed

theorem filter_finished_contract_witness:
  "rows (filter_finished \<lparr>columns = [''Id'', ''Finished''],
       rows = [\<lambda>c. Val '' True '', \<lambda>c. Val ''0'', \<lambda>c. Val ''YES'']\<rparr>) =
     [\<lambda>c. Val '' True '', \<lambda>c. Val ''YES''] \<and>
   filter_finished \<lparr>columns = [''Id''], rows = [\<lambda>c. Val ''0'']\<rparr> =
     \<lparr>columns = [''Id''], rows = [\<lambda>c. Val ''0'']\<rparr>"
proof -
  have t: "lower (strip '' True '') = ''true''" by code_simp
  have y: "lower (strip ''YES'') = ''yes''" by code_simp
  have z: "lower (strip ''0'') = ''0''" by code_simp
  show ?thesis
    using filter_finished_contract [of "\<lparr>columns = [''Id'', ''Finished''],
       rows = [\<lambda>c. Val '' True '', \<lambda>c. Val ''0'', \<lambda>c. Val ''YES'']\<rparr>"]
      filter_finished_contract [of "\<lparr>columns = [''Id''], rows = [\<lambda>c. Val ''0'']\<rparr>"]
    by (simp add: t y z)
qed

section \<open>The column resolver\<close>

text \<open>
  C8. The column resolver returns the one column whose name contains both
  \<open>Groups\<close> and the keyword when exactly one column does, and otherwise fails
  with \<open>AmbiguousColumn\<close>, carrying the keyword and the whole list of matches,
  which may be empty. A returned column is a column of the frame, matches, and
  is the only one that matches. Containing means: the text occurs in the name as
  a contiguous run.
\<close>

theorem find_group_column_contract:
  "(let ms = filter (\<lambda>c. contains ''Groups'' c \<and> contains keyword c) cols
    in (length ms = 1 \<longrightarrow> find_group_column cols keyword = Inr (hd ms)) \<and>
       (length ms \<noteq> 1 \<longrightarrow>
          find_group_column cols keyword = Inl (AmbiguousColumn keyword ms))) \<and>
   (find_group_column cols keyword = Inr c \<longrightarrow>
      c \<in> set cols \<and> contains ''Groups'' c \<and> contains keyword c \<and>
      (\<forall>c' \<in> set cols. contains ''Groups'' c' \<and> contains keyword c' \<longrightarrow> c' = c)) \<and>
   (contains p s \<longleftrightarrow> (\<exists>a b. s = a @ p @ b))"
proof -
  let ?ms = "filter (\<lambda>c. contains ''Groups'' c \<and> contains keyword c) cols"
  have one: "find_group_column cols keyword = Inr (hd ?ms)" if "length ?ms = 1"
  proof -
    from that obtain x where x: "?ms = [x]" by (cases ?ms) auto
    show ?thesis unfolding find_group_column_def Let_def x by simp
  qed
  have other: "find_group_column cols keyword = Inl (AmbiguousColumn keyword ?ms)"
    if "length ?ms \<noteq> 1"
    using that unfolding find_group_column_def Let_def by simp
  have uniq: "c \<in> set cols \<and> contains ''Groups'' c \<and> contains keyword c \<and>
      (\<forall>c' \<in> set cols. contains ''Groups'' c' \<and> contains keyword c' \<longrightarrow> c' = c)"
    if r: "find_group_column cols keyword = Inr c"
  proof -
    have len: "length ?ms = 1"
    proof (rule ccontr)
      assume "length ?ms \<noteq> 1"
      from other [OF this] r show False by simp
    qed
    then obtain x where x: "?ms = [x]" by (cases ?ms) auto
    from one [OF len] r x have cx: "x = c" by simp
    have mem: "set ?ms = {c}" using x cx by simp
    have "c \<in> set ?ms" using mem by simp
    then have a: "c \<in> set cols \<and> contains ''Groups'' c \<and> contains keyword c" by simp
    have "c' = c" if "c' \<in> set cols" "contains ''Groups'' c'" "contains keyword c'" for c'
    proof -
      from that have "c' \<in> set ?ms" by simp
      with mem show ?thesis by simp
    qed
    with a show ?thesis by blast
  qed
  show ?thesis
    using one other uniq contains_iff [of p s] unfolding Let_def by blast
qed

theorem find_group_column_contract_witness:
  "find_group_column [''Finished'', ''Q1 - Groups - Most Beneficial'', ''Q1 - Groups - Neutral'']
      ''Neutral'' = Inr ''Q1 - Groups - Neutral'' \<and>
   find_group_column [''Finished'', ''Q1 - Groups - Most Beneficial'', ''Q1 - Groups - Neutral'']
      ''Least Beneficial'' = Inl (AmbiguousColumn ''Least Beneficial'' [])"
proof -
  let ?cols = "[''Finished'', ''Q1 - Groups - Most Beneficial'', ''Q1 - Groups - Neutral'']"
  have f1: "filter (\<lambda>c. contains ''Groups'' c \<and> contains ''Neutral'' c) ?cols =
      [''Q1 - Groups - Neutral'']" by code_simp
  have f2: "filter (\<lambda>c. contains ''Groups'' c \<and> contains ''Least Beneficial'' c) ?cols = []"
    by code_simp
  show ?thesis
    using find_group_column_contract [of "''Neutral''" ?cols]
      find_group_column_contract [of "''Least Beneficial''" ?cols]
    unfolding Let_def f1 f2 by simp
qed

section \<open>Facts about the tally\<close>

lemma tally_of_count_course:
  "tally_of (count_course b st c) c' =
     (if c' = c then incr b (tally_of st c) else tally_of st c')"
  by (auto simp: count_course_def tally_of_def update_conv' split: option.splits)

lemma keys_count_course: "fst ` set (count_course b st c) = insert c (fst ` set st)"
  by (auto simp: count_course_def Let_def dom_update update_conv' split: option.splits)

lemma distinct_count_course:
  "distinct (map fst st) \<Longrightarrow> distinct (map fst (count_course b st c))"
  by (auto simp: count_course_def Let_def distinct_update update_conv' split: option.splits)

lemma tally_of_courses:
  "tally_of (foldl (count_course b) st cs) c =
     (incr b ^^ count_list cs c) (tally_of st c)"
proof (induction cs arbitrary: st)
  case Nil
  show ?case by simp
next
  case (Cons x cs)
  show ?case
    by (simp add: Cons tally_of_count_course funpow_swap1)
qed

lemma keys_courses: "fst ` set (foldl (count_course b) st cs) = set cs \<union> fst ` set st"
  by (induction cs arbitrary: st) (auto simp: keys_count_course)

lemma distinct_courses:
  "distinct (map fst st) \<Longrightarrow> distinct (map fst (foldl (count_course b) st cs))"
  by (induction cs arbitrary: st) (auto simp: distinct_count_course)

lemma incr_funpow:
  "most ((incr b ^^ n) k) = most k + (if b = Most then n else 0) \<and>
   neutral ((incr b ^^ n) k) = neutral k + (if b = Neutral then n else 0) \<and>
   least ((incr b ^^ n) k) = least k + (if b = Least then n else 0)"
  by (induction n) (auto simp: incr_def split: bucket.splits)

lemma tally_of_row:
  "most (tally_of (tally_row mc nc lc st r) c) =
     most (tally_of st c) + count_list (split_courses (r mc)) c \<and>
   neutral (tally_of (tally_row mc nc lc st r) c) =
     neutral (tally_of st c) + count_list (split_courses (r nc)) c \<and>
   least (tally_of (tally_row mc nc lc st r) c) =
     least (tally_of st c) + count_list (split_courses (r lc)) c"
  by (simp add: tally_row_def tally_of_courses incr_funpow)

lemma keys_row:
  "fst ` set (tally_row mc nc lc st r) =
     set (split_courses (r mc)) \<union> set (split_courses (r nc)) \<union> set (split_courses (r lc)) \<union>
     fst ` set st"
  by (auto simp: tally_row_def keys_courses)

lemma distinct_row:
  "distinct (map fst st) \<Longrightarrow> distinct (map fst (tally_row mc nc lc st r))"
  by (simp add: tally_row_def distinct_courses)

lemma tally_of_rows:
  "most (tally_of (foldl (tally_row mc nc lc) st rs) c) =
     most (tally_of st c) + (\<Sum>r\<leftarrow>rs. count_list (split_courses (r mc)) c) \<and>
   neutral (tally_of (foldl (tally_row mc nc lc) st rs) c) =
     neutral (tally_of st c) + (\<Sum>r\<leftarrow>rs. count_list (split_courses (r nc)) c) \<and>
   least (tally_of (foldl (tally_row mc nc lc) st rs) c) =
     least (tally_of st c) + (\<Sum>r\<leftarrow>rs. count_list (split_courses (r lc)) c)"
proof (induction rs arbitrary: st)
  case Nil
  show ?case by simp
next
  case (Cons r rs)
  show ?case by (simp add: Cons tally_of_row)
qed

lemma keys_rows:
  "fst ` set (foldl (tally_row mc nc lc) st rs) =
     (\<Union>r \<in> set rs. set (split_courses (r mc)) \<union> set (split_courses (r nc)) \<union>
        set (split_courses (r lc))) \<union> fst ` set st"
  by (induction rs arbitrary: st) (auto simp: keys_row)

lemma distinct_rows:
  "distinct (map fst st) \<Longrightarrow> distinct (map fst (foldl (tally_row mc nc lc) st rs))"
  by (induction rs arbitrary: st) (auto simp: distinct_row)

lemma distinct_tally_rows: "distinct (map fst (tally_rows mc nc lc rs))"
  by (simp add: tally_rows_def distinct_rows)

lemma tally_of_Nil: "tally_of [] c = \<lparr>most = 0, neutral = 0, least = 0\<rparr>"
  by (simp add: tally_of_def)

lemma tally_of_entry:
  "distinct (map fst st) \<Longrightarrow> (c, k) \<in> set st \<Longrightarrow> tally_of st c = k"
  by (simp add: tally_of_def)

section \<open>What the tally counts\<close>

lemma sum_list_pos_iff: "0 < (\<Sum>x\<leftarrow>xs. f x) \<longleftrightarrow> (\<exists>x \<in> set xs. 0 < (f x :: nat))"
  by (induction xs) auto

lemma count_list_pos_iff: "0 < count_list xs x \<longleftrightarrow> x \<in> set xs"
  using count_list_0_iff [of xs x] by auto

text \<open>
  C3. After the tally loop, for every course \<open>c\<close>, each counter of \<open>c\<close> is the
  number of occurrences of \<open>c\<close> in the course lists of that bucket's column over
  the rows scanned, an occurrence repeated inside one cell counted each time; so
  the three counters sum to the number of occurrences over the three columns.
  The course has an entry exactly when that number is positive.
\<close>

theorem tally_counts_occurrences:
  "(let t = tally_of (tally_rows mc nc lc rs) c;
        m = (\<Sum>r\<leftarrow>rs. count_list (split_courses (r mc)) c);
        n = (\<Sum>r\<leftarrow>rs. count_list (split_courses (r nc)) c);
        l = (\<Sum>r\<leftarrow>rs. count_list (split_courses (r lc)) c)
    in most t = m \<and> neutral t = n \<and> least t = l \<and>
       most t + neutral t + least t = m + n + l \<and>
       (c \<in> fst ` set (tally_rows mc nc lc rs) \<longleftrightarrow> 0 < m + n + l))"
proof -
  have k: "c \<in> fst ` set (tally_rows mc nc lc rs) \<longleftrightarrow>
      (\<exists>r \<in> set rs. c \<in> set (split_courses (r mc)) \<or> c \<in> set (split_courses (r nc)) \<or>
         c \<in> set (split_courses (r lc)))"
    unfolding tally_rows_def keys_rows by auto
  have p: "0 < (\<Sum>r\<leftarrow>rs. count_list (split_courses (r mc)) c) +
        (\<Sum>r\<leftarrow>rs. count_list (split_courses (r nc)) c) +
        (\<Sum>r\<leftarrow>rs. count_list (split_courses (r lc)) c) \<longleftrightarrow>
      (\<exists>r \<in> set rs. c \<in> set (split_courses (r mc)) \<or> c \<in> set (split_courses (r nc)) \<or>
         c \<in> set (split_courses (r lc)))"
    using sum_list_pos_iff [of "\<lambda>r. count_list (split_courses (r mc)) c" rs]
      sum_list_pos_iff [of "\<lambda>r. count_list (split_courses (r nc)) c" rs]
      sum_list_pos_iff [of "\<lambda>r. count_list (split_courses (r lc)) c" rs]
    by (auto simp: count_list_pos_iff)
  show ?thesis
    unfolding Let_def k p [symmetric]
    using tally_of_rows [of mc nc lc "[]" rs c]
    by (simp add: tally_rows_def tally_of_Nil)
qed

theorem tally_counts_occurrences_witness:
  "tally_of (tally_rows ''M'' ''N'' ''L''
     [\<lambda>c. if c = ''M'' then Val ''A, B, A'' else if c = ''L'' then Val ''C'' else NA,
      \<lambda>c. if c = ''M'' then Val ''A'' else if c = ''N'' then Val ''B'' else NA]) ''A'' =
     \<lparr>most = 3, neutral = 0, least = 0\<rparr>"
proof -
  let ?rs = "[\<lambda>c. if c = ''M'' then Val ''A, B, A'' else if c = ''L'' then Val ''C'' else NA,
      \<lambda>c. if c = ''M'' then Val ''A'' else if c = ''N'' then Val ''B'' else NA] :: row list"
  have a: "split_courses (Val ''A, B, A'') = [''A'', ''B'', ''A'']" by code_simp
  have b: "split_courses (Val ''A'') = [''A'']" by code_simp
  have c: "split_courses (Val ''B'') = [''B'']" by code_simp
  have d: "split_courses (Val ''C'') = [''C'']" by code_simp
  have e: "split_courses NA = []" by code_simp
  show ?thesis
    using tally_counts_occurrences [of "''M''" "''N''" "''L''" ?rs "''A''"]
    by (simp add: Let_def a b c d e)
qed

lemma strip_strip: "strip (strip s) = strip s"
proof (cases "strip s = []")
  case True
  have "strip [] = []" by (simp add: strip_def)
  with True show ?thesis by simp
next
  case False
  let ?u = "strip s"
  from strip_hd [OF False] have 1: "dropWhile isspace ?u = ?u"
    using False by (simp add: dropWhile_eq_self_iff)
  have "hd (rev ?u) = last ?u" using False by (simp add: hd_rev)
  with strip_last [OF False] have 2: "dropWhile isspace (rev ?u) = rev ?u"
    using False by (simp add: dropWhile_eq_self_iff)
  show ?thesis unfolding strip_def [of "strip s"] 1 2 by simp
qed

lemma split_courses_member:
  "c \<in> set (split_courses v) \<Longrightarrow>
     c \<noteq> [] \<and> \<not> isspace (hd c) \<and> \<not> isspace (last c) \<and> strip c = c"
proof (cases v)
  case NA
  assume "c \<in> set (split_courses v)"
  with NA show ?thesis by (simp add: split_courses_def)
next
  case (Val s)
  assume "c \<in> set (split_courses v)"
  with Val obtain p where p: "c = strip p" and ne: "c \<noteq> []"
    by (auto simp: split_courses_def)
  from ne p have "strip p \<noteq> []" by simp
  from strip_hd [OF this] strip_last [OF this] p ne strip_strip [of p]
  show ?thesis by simp
qed

section \<open>Facts about the ranking order\<close>

lemma str_lt_irrefl: "\<not> str_lt a a"
  by (induction a) auto

lemma str_lt_trans: "str_lt a b \<Longrightarrow> str_lt b c \<Longrightarrow> str_lt a c"
proof (induction a arbitrary: b c)
  case Nil
  then show ?case by (cases b; cases c) auto
next
  case (Cons x xs)
  from Cons.prems obtain y ys where b: "b = y # ys" by (cases b) auto
  from Cons.prems b obtain z zs where c: "c = z # zs" by (cases c) auto
  from Cons.prems b c Cons.IH [of ys zs] show ?case by auto
qed

lemma str_lt_total: "str_lt a b \<or> a = b \<or> str_lt b a"
proof (induction a arbitrary: b)
  case Nil
  show ?case by (cases b) auto
next
  case (Cons x xs)
  show ?case
  proof (cases b)
    case Nil
    then show ?thesis by simp
  next
    case (Cons y ys)
    have inj: "x = y" if "(of_char x :: nat) = of_char y" using that by simp
    have tri: "(of_char x :: nat) < of_char y \<or> x = y \<or> (of_char y :: nat) < of_char x"
      using linorder_less_linear [of "of_char x :: nat" "of_char y"] inj by blast
    from tri Cons.IH [of ys] show ?thesis unfolding Cons by auto
  qed
qed

lemma str_lt_asym: "str_lt a b \<Longrightarrow> \<not> str_lt b a"
  using str_lt_trans [of a b a] str_lt_irrefl [of a] by blast

lemma str_lt_lexord:
  "str_lt a b \<longleftrightarrow> (a, b) \<in> lexord {(x, y). (of_char x :: nat) < of_char y}"
  by (induction a b rule: str_lt.induct) auto

lemma before_irrefl: "\<not> before a a"
  by (simp add: before_def str_lt_irrefl)

lemma before_trans: "before a b \<Longrightarrow> before b c \<Longrightarrow> before a c"
  unfolding before_def
  using str_lt_trans [of "course a" "course b" "course c"]
  by (auto; linarith?)
lemma before_total:
  "before a b \<or> before b a \<or>
   (score a = score b \<and> most a = most b \<and> neutral a = neutral b \<and> course a = course b)"
  unfolding before_def
  using str_lt_total [of "course a" "course b"]
  by (auto; linarith?)
lemma before_keys_right:
  "score a = score b \<Longrightarrow> most a = most b \<Longrightarrow> neutral a = neutral b \<Longrightarrow>
   course a = course b \<Longrightarrow> before c a = before c b"
  by (simp add: before_def)

lemma not_before_trans: "\<not> before b a \<Longrightarrow> \<not> before c b \<Longrightarrow> \<not> before c a"
  using before_total [of a b] before_trans [of c a b] before_keys_right [of a b c]
  by blast

lemma before_asym: "before a b \<Longrightarrow> \<not> before b a"
  using before_trans [of a b a] before_irrefl [of a] by blast

lemma mset_insert_row: "mset (insert_row x ys) = add_mset x (mset ys)"
  by (induction ys) auto

lemma mset_sort_values: "mset (sort_values es) = mset es"
  by (induction es) (auto simp: sort_values_def mset_insert_row)

lemma set_insert_row: "set (insert_row x ys) = insert x (set ys)"
  by (induction ys) auto

lemma set_sort_values: "set (sort_values es) = set es"
  using mset_sort_values [of es] by (metis set_mset_mset)

lemma length_sort_values: "length (sort_values es) = length es"
  using mset_sort_values [of es] by (metis size_mset)

lemma sorted_insert_row:
  "sorted_wrt (\<lambda>a b. \<not> before b a) ys \<Longrightarrow> sorted_wrt (\<lambda>a b. \<not> before b a) (insert_row x ys)"
proof (induction ys)
  case Nil
  show ?case by simp
next
  case (Cons y ys)
  show ?case
  proof (cases "before y x")
    case True
    have "\<not> before z y" if "z \<in> set (insert_row x ys)" for z
    proof -
      from that have "z = x \<or> z \<in> set ys" by (simp add: set_insert_row)
      then show ?thesis
      proof
        assume "z = x"
        with True show ?thesis by (simp add: before_asym)
      next
        assume "z \<in> set ys"
        with Cons.prems show ?thesis by simp
      qed
    qed
    with True Cons show ?thesis by simp
  next
    case False
    have "\<not> before z x" if "z \<in> set ys" for z
    proof -
      from that Cons.prems have "\<not> before z y" by simp
      from not_before_trans [OF False this] show ?thesis .
    qed
    with False Cons.prems show ?thesis by simp
  qed
qed

lemma sorted_sort_values: "sorted_wrt (\<lambda>a b. \<not> before b a) (sort_values es)"
  by (induction es) (auto simp: sort_values_def sorted_insert_row simp del: insert_row.simps)

lemma insert_row_sorted:
  "\<forall>y \<in> set ys. \<not> before y x \<Longrightarrow> insert_row x ys = x # ys"
  by (cases ys) auto

lemma sort_values_sorted:
  "sorted_wrt (\<lambda>a b. \<not> before b a) es \<Longrightarrow> sort_values es = es"
proof (induction es)
  case Nil
  show ?case by (simp add: sort_values_def)
next
  case (Cons x xs)
  then have xs: "foldr insert_row xs [] = xs" by (simp add: sort_values_def)
  from Cons.prems have "\<forall>y \<in> set xs. \<not> before y x" by simp
  from insert_row_sorted [OF this] xs show ?case by (simp add: sort_values_def)
qed

lemma sort_values_idem: "sort_values (sort_values es) = sort_values es"
  by (rule sort_values_sorted) (rule sorted_sort_values)

end
